theory Spec2Isabelle
  imports Complex_Main
begin

section \<open>Array values\<close>

text \<open>
  The library computes on JAX arrays of IEEE floating-point numbers. An array element is
  modelled as a value of \<open>fl\<close>: a finite number carried as an exact real (no rounding, no
  overflow, a single unsigned zero that divides like \<open>+0\<close>), the two infinities, and NaN.
  The arithmetic below is the IEEE-754 arithmetic on these values: NaN is absorbing,
  \<open>\<infinity> - \<infinity>\<close>, \<open>0 * \<infinity>\<close>, \<open>0 / 0\<close> and \<open>\<infinity> / \<infinity>\<close> are NaN, a nonzero finite number
  divided by zero is the infinity of its sign, the logarithm of a negative number is NaN
  and every comparison with NaN is false.
\<close>

datatype fl = Fin real | PInf | NInf | NaN

datatype error = ShapeError | ValueError

fun fl_neg :: "fl \<Rightarrow> fl" where
  "fl_neg (Fin a) = Fin (- a)"
| "fl_neg PInf = NInf"
| "fl_neg NInf = PInf"
| "fl_neg NaN = NaN"

fun fl_add :: "fl \<Rightarrow> fl \<Rightarrow> fl" where
  "fl_add NaN _ = NaN"
| "fl_add _ NaN = NaN"
| "fl_add (Fin a) (Fin b) = Fin (a + b)"
| "fl_add PInf NInf = NaN"
| "fl_add NInf PInf = NaN"
| "fl_add PInf _ = PInf"
| "fl_add NInf _ = NInf"
| "fl_add (Fin a) PInf = PInf"
| "fl_add (Fin a) NInf = NInf"

definition fl_sub :: "fl \<Rightarrow> fl \<Rightarrow> fl" where
  "fl_sub a b = fl_add a (fl_neg b)"

text \<open>The sign of a value that is not NaN: \<open>1\<close>, \<open>0\<close> or \<open>-1\<close>.\<close>

fun fl_sign :: "fl \<Rightarrow> int" where
  "fl_sign (Fin a) = (if a > 0 then 1 else if a < 0 then - 1 else 0)"
| "fl_sign PInf = 1"
| "fl_sign NInf = - 1"
| "fl_sign NaN = 0"

definition signed_inf :: "int \<Rightarrow> fl" where
  "signed_inf s = (if s > 0 then PInf else if s < 0 then NInf else NaN)"

fun fl_mul :: "fl \<Rightarrow> fl \<Rightarrow> fl" where
  "fl_mul NaN _ = NaN"
| "fl_mul _ NaN = NaN"
| "fl_mul (Fin a) (Fin b) = Fin (a * b)"
| "fl_mul a b = signed_inf (fl_sign a * fl_sign b)"

fun fl_div :: "fl \<Rightarrow> fl \<Rightarrow> fl" where
  "fl_div NaN _ = NaN"
| "fl_div _ NaN = NaN"
| "fl_div (Fin a) (Fin b) = (if b = 0 then signed_inf (fl_sign (Fin a)) else Fin (a / b))"
| "fl_div (Fin a) _ = Fin 0"
| "fl_div a (Fin b) = signed_inf (fl_sign a * (if b < 0 then - 1 else 1))"
| "fl_div _ _ = NaN"

fun fl_abs :: "fl \<Rightarrow> fl" where
  "fl_abs (Fin a) = Fin \<bar>a\<bar>"
| "fl_abs PInf = PInf"
| "fl_abs NInf = PInf"
| "fl_abs NaN = NaN"

fun fl_exp :: "fl \<Rightarrow> fl" where
  "fl_exp (Fin a) = Fin (exp a)"
| "fl_exp PInf = PInf"
| "fl_exp NInf = Fin 0"
| "fl_exp NaN = NaN"

fun fl_log :: "fl \<Rightarrow> fl" where
  "fl_log (Fin a) = (if a > 0 then Fin (ln a) else if a = 0 then NInf else NaN)"
| "fl_log PInf = PInf"
| "fl_log NInf = NaN"
| "fl_log NaN = NaN"

fun fl_sqrt :: "fl \<Rightarrow> fl" where
  "fl_sqrt (Fin a) = (if a \<ge> 0 then Fin (sqrt a) else NaN)"
| "fl_sqrt PInf = PInf"
| "fl_sqrt NInf = NaN"
| "fl_sqrt NaN = NaN"

text \<open>\<open>expm1 x = exp x - 1\<close> and \<open>log1p x = log (1 + x)\<close>.\<close>

definition fl_expm1 :: "fl \<Rightarrow> fl" where
  "fl_expm1 x = fl_sub (fl_exp x) (Fin 1)"

definition fl_log1p :: "fl \<Rightarrow> fl" where
  "fl_log1p x = fl_log (fl_add (Fin 1) x)"

fun fl_less :: "fl \<Rightarrow> fl \<Rightarrow> bool" where
  "fl_less NaN _ = False"
| "fl_less _ NaN = False"
| "fl_less (Fin a) (Fin b) = (a < b)"
| "fl_less NInf NInf = False"
| "fl_less NInf _ = True"
| "fl_less PInf _ = False"
| "fl_less (Fin a) PInf = True"
| "fl_less (Fin a) NInf = False"

definition fl_gt :: "fl \<Rightarrow> fl \<Rightarrow> bool" where
  "fl_gt a b = fl_less b a"



text \<open>
  Elementwise binary operation on two rank-1 arrays with NumPy broadcasting: equal
  lengths pair up, a length-1 array is stretched, anything else is a shape error.
\<close>

definition ew2 :: "(fl \<Rightarrow> fl \<Rightarrow> fl) \<Rightarrow> fl list \<Rightarrow> fl list \<Rightarrow> error + fl list" where
  "ew2 f xs ys =
     (if length xs = length ys then Inr (map2 f xs ys)
      else if length xs = 1 then Inr (map (f (hd xs)) ys)
      else if length ys = 1 then Inr (map (\<lambda>x. f x (hd ys)) xs)
      else Inl ShapeError)"

section \<open>Bijectors (\<open>bojax/_src/prediction/bijectors/alias.py\<close>)\<close>



section \<open>Special functions of \<open>jax.scipy\<close>\<close>

text \<open>
  \<open>scipy.special.erfc\<close> and \<open>scipy.stats.norm\<close> are library functions, not code of this
  repository. They are modelled by the functions they compute: the error function by its
  Maclaurin series \<open>erf x = 2/\<surd>\<pi> \<Sum>n. (-1)^n x^(2n+1) / (n! (2n+1))\<close>, the standard normal
  density \<open>\<phi>\<close> and distribution function \<open>\<Phi> z = erfc (- z/\<surd>2) / 2\<close>, each extended to the
  infinities by its limit.
\<close>

definition erf_term :: "real \<Rightarrow> nat \<Rightarrow> real" where
  "erf_term x n = x ^ (2 * n + 1) / (fact n * real (2 * n + 1))"

definition erf :: "real \<Rightarrow> real" where
  "erf x = 2 / sqrt pi * (\<Sum>n. (- 1) ^ n * erf_term x n)"

definition erfc :: "real \<Rightarrow> real" where
  "erfc x = 1 - erf x"

definition std_normal_pdf :: "real \<Rightarrow> real" where
  "std_normal_pdf z = exp (- (z\<^sup>2) / 2) / sqrt (2 * pi)"

definition std_normal_cdf :: "real \<Rightarrow> real" where
  "std_normal_cdf z = erfc (- z / sqrt 2) / 2"

fun special_erfc :: "fl \<Rightarrow> fl" where
  "special_erfc (Fin x) = Fin (erfc x)"
| "special_erfc PInf = Fin 0"
| "special_erfc NInf = Fin 2"
| "special_erfc NaN = NaN"

fun norm_pdf :: "fl \<Rightarrow> fl" where
  "norm_pdf (Fin z) = Fin (std_normal_pdf z)"
| "norm_pdf PInf = Fin 0"
| "norm_pdf NInf = Fin 0"
| "norm_pdf NaN = NaN"

fun norm_cdf :: "fl \<Rightarrow> fl" where
  "norm_cdf (Fin z) = Fin (std_normal_cdf z)"
| "norm_cdf PInf = Fin 1"
| "norm_cdf NInf = Fin 0"
| "norm_cdf NaN = NaN"

fun norm_logpdf :: "fl \<Rightarrow> fl" where
  "norm_logpdf (Fin z) = Fin (- (z\<^sup>2) / 2 - ln (2 * pi) / 2)"
| "norm_logpdf PInf = NInf"
| "norm_logpdf NInf = NInf"
| "norm_logpdf NaN = NaN"

fun norm_logcdf :: "fl \<Rightarrow> fl" where
  "norm_logcdf (Fin z) = Fin (ln (std_normal_cdf z))"
| "norm_logcdf PInf = Fin 0"
| "norm_logcdf NInf = NInf"
| "norm_logcdf NaN = NaN"

section \<open>Acquisition functions (\<open>bojax/_src/optimization/acquisitions/alias.py\<close>)\<close>

text \<open>
  A process maps candidates to a mean vector of shape \<open>(k)\<close> and a covariance matrix of
  shape \<open>(k, k)\<close>. The candidates themselves are never inspected by an acquisition.
\<close>

type_synonym 'c process = "'c \<Rightarrow> fl list \<times> fl list list"

text \<open>\<open>jnp.diag\<close> under the signature \<open>(k,k)->(k)\<close>: a matrix that is not square is refused.\<close>

definition diag :: "fl list list \<Rightarrow> error + fl list" where
  "diag cov =
     (if \<forall>row \<in> set cov. length row = length cov
      then Inr (map (\<lambda>i. cov ! i ! i) [0..<length cov])
      else Inl ShapeError)"

text \<open>\<open>jnp.vectorize(compose(jnp.sqrt, jnp.diag), signature='(k,k)->(k)')\<close>.\<close>

definition sqrt_diag :: "fl list list \<Rightarrow> error + fl list" where
  "sqrt_diag cov = (case diag cov of Inl e \<Rightarrow> Inl e | Inr d \<Rightarrow> Inr (map fl_sqrt d))"

definition scale_improvement :: "fl list \<Rightarrow> fl list \<Rightarrow> fl \<Rightarrow> error + fl list" where
  "scale_improvement loc scale best = ew2 fl_div (map (\<lambda>l. fl_sub l best) loc) scale"

definition log_probability_of_improvement :: "fl \<Rightarrow> 'c process \<Rightarrow> 'c \<Rightarrow> error + fl list" where
  "log_probability_of_improvement best process candidates =
     (case process candidates of (loc, cov) \<Rightarrow>
        (case sqrt_diag cov of Inl e \<Rightarrow> Inl e
         | Inr scale \<Rightarrow>
            (case scale_improvement loc scale best of Inl e \<Rightarrow> Inl e
             | Inr x \<Rightarrow> Inr (map norm_logcdf x))))"

definition log2_const :: fl where
  "log2_const = Fin (ln 2)"

definition neg_inv_sqrt_eps :: fl where
  "neg_inv_sqrt_eps = Fin (- 1000000)"

definition neg_inv_sqrt2 :: fl where
  "neg_inv_sqrt2 = Fin (- (2 powr (- (1 / 2))))"

definition log_sqrt_pi_div_2 :: fl where
  "log_sqrt_pi_div_2 = Fin (ln (pi / 2) / 2)"

definition log1mexp :: "fl \<Rightarrow> fl" where
  "log1mexp x =
     (if fl_less (fl_neg log2_const) x
      then fl_log (fl_expm1 (fl_neg x))
      else fl_log1p (fl_exp (fl_neg x)))"

definition erfcx :: "fl \<Rightarrow> fl" where
  "erfcx x = fl_mul (fl_exp (fl_mul x x)) (special_erfc x)"

definition log_ei_eps :: "fl \<Rightarrow> fl" where
  "log_ei_eps x =
     log1mexp (fl_add (fl_log (fl_mul (erfcx (fl_mul neg_inv_sqrt2 x)) (fl_abs x)))
                      log_sqrt_pi_div_2)"

definition log_ei_upper :: "fl \<Rightarrow> fl" where
  "log_ei_upper x = fl_log (fl_add (norm_pdf x) (fl_mul x (norm_cdf x)))"

definition log_ei_lower :: "fl \<Rightarrow> fl" where
  "log_ei_lower x = fl_mul (fl_log (fl_abs x)) (Fin (- 2))"

text \<open>\<open>jnp.where c a b\<close> evaluates both branches and selects; a NaN condition is false.\<close>

definition log_ei :: "fl \<Rightarrow> fl" where
  "log_ei x =
     (let bound = Fin (- 1);
          x_upper = (if fl_less x bound then bound else x);
          x_lower = (if fl_gt x bound then bound else x);
          x_eps = (if fl_less x neg_inv_sqrt_eps then neg_inv_sqrt_eps else x_lower)
      in if fl_gt x bound then log_ei_upper x_upper
         else fl_add (norm_logpdf x)
                (if fl_gt x neg_inv_sqrt_eps then log_ei_eps x_eps else log_ei_lower x_lower))"



section \<open>Array functions of \<open>jax\<close> used by the initializers\<close>

text \<open>A candidate set is a \<open>(q, d)\<close> array; a pool is a list of candidate sets.\<close>

type_synonym candidate = "fl list list"







fun cumsum_from :: "fl \<Rightarrow> fl list \<Rightarrow> fl list" where
  "cumsum_from acc [] = []"
| "cumsum_from acc (p # ps) = fl_add acc p # cumsum_from (fl_add acc p) ps"

definition cumsum :: "fl list \<Rightarrow> fl list" where
  "cumsum ps = cumsum_from (Fin 0) ps"

text \<open>
  \<open>jnp.searchsorted(a, v)\<close> (left side) on an ascending array: the number of entries
  strictly below \<open>v\<close>.
\<close>

definition searchsorted :: "fl list \<Rightarrow> fl \<Rightarrow> nat" where
  "searchsorted a v = length (filter (\<lambda>c. fl_less c v) a)"

text \<open>\<open>jnp.take\<close> along axis 0: an index past the end yields a row filled with NaN.\<close>

definition take_row :: "candidate list \<Rightarrow> nat \<Rightarrow> candidate" where
  "take_row a i = (if i < length a then a ! i else map (map (\<lambda>_. NaN)) (hd a))"

text \<open>
  \<open>jax.random.choice(key, a, (n,), p=p)\<close>, drawing with replacement. The generator is a
  parameter: \<open>uniform key n\<close> stands for \<open>jax.random.uniform(key, (n,))\<close>, a pure function of
  the key with values in \<open>[0, 1)\<close>. The draw is by inversion of the cumulated weights:
  \<open>r = p_cuml[-1] * (1 - u)\<close>, \<open>ind = searchsorted(p_cuml, r)\<close>, and the result is
  \<open>take(a, ind)\<close>; the weights need not sum to one.
\<close>

definition random_choice ::
  "('k \<Rightarrow> nat \<Rightarrow> real list) \<Rightarrow> 'k \<Rightarrow> candidate list \<Rightarrow> nat \<Rightarrow> fl list \<Rightarrow> error + candidate list" where
  "random_choice uniform key a n p =
     (if n = 0 then Inr []
      else if length a = 0 then Inl ValueError
      else if length p \<noteq> length a then Inl ValueError
      else let p_cuml = cumsum p;
               r = map (\<lambda>u. fl_mul (last p_cuml) (fl_sub (Fin 1) (Fin u))) (uniform key n);
               ind = map (searchsorted p_cuml) r
           in Inr (map (take_row a) ind))"



section \<open>Initializers (\<open>boax/optimization/optimizers/initializers/alias.py\<close>)\<close>






section \<open>Optimizers\<close>

text \<open>
  Modelled from the spec: the builders \<open>batch\<close> and \<open>sequential\<close> of the optimizers
  module are not among the sources (only their tests are), so the definitions of this
  section follow the specification of the multi-restart optimizers. The sampler, the
  key splitter, the initializer and the solver are collaborators and enter as parameters.
\<close>

text \<open>An array of any rank, and its shape.\<close>

datatype array = Scalar fl | Array "array list"

fun shape :: "array \<Rightarrow> nat list" where
  "shape (Scalar v) = []"
| "shape (Array []) = [0]"
| "shape (Array (x # xs)) = Suc (length xs) # shape x"

definition of_vector :: "fl list \<Rightarrow> array" where
  "of_vector v = Array (map Scalar v)"

definition of_matrix :: "candidate \<Rightarrow> array" where
  "of_matrix c = Array (map of_vector c)"

type_synonym bounds = "(fl \<times> fl) list"

type_synonym acquisition = "candidate \<Rightarrow> fl"

type_synonym 'k sampler = "'k \<Rightarrow> bounds \<Rightarrow> nat \<Rightarrow> nat \<Rightarrow> candidate list"

type_synonym 'k initializer = "'k \<Rightarrow> candidate list \<Rightarrow> fl list \<Rightarrow> nat \<Rightarrow> error + candidate list"

text \<open>
  Modelled from the spec: a solver refines every restart to a candidate and a score; a
  restart from which it fails to converge yields \<open>None\<close> and is discarded.
\<close>

type_synonym solver = "acquisition \<Rightarrow> bounds \<Rightarrow> candidate list \<Rightarrow> (candidate \<times> fl) option list"

datatype optimizer_error = InitializerFailed error | NoFeasibleCandidate

text \<open>Modelled from the spec: the restart with the maximum refined score, the first on ties.\<close>

fun best_of :: "candidate \<times> fl \<Rightarrow> (candidate \<times> fl) list \<Rightarrow> candidate \<times> fl" where
  "best_of b [] = b"
| "best_of b (r # rs) = best_of (if fl_less (snd b) (snd r) then r else b) rs"

text \<open>
  Modelled from the spec: one round samples \<open>num_samples\<close> candidate sets of \<open>q\<close> points
  inside the bounds, scores them, lets the initializer choose the restarts, runs the solver
  from each restart and returns the best refined result; it fails only if no restart
  converges.
\<close>

definition batch_round ::
  "'k sampler \<Rightarrow> 'k initializer \<Rightarrow> solver \<Rightarrow> 'k \<Rightarrow> acquisition \<Rightarrow> bounds \<Rightarrow> nat \<Rightarrow> nat \<Rightarrow> nat
     \<Rightarrow> optimizer_error + candidate \<times> fl" where
  "batch_round sampler initializer solver key acquisition bounds q num_samples num_restarts =
     (let pool = sampler key bounds q num_samples;
          scores = map acquisition pool
      in case initializer key pool scores num_restarts of
           Inl e \<Rightarrow> Inl (InitializerFailed e)
         | Inr restarts \<Rightarrow>
            (case List.map_filter id (solver acquisition bounds restarts) of
               [] \<Rightarrow> Inl NoFeasibleCandidate
             | r # rs \<Rightarrow> Inr (best_of r rs)))"

text \<open>Modelled from the spec: the batch optimizer returns the best candidate and its score.\<close>

definition batch ::
  "'k sampler \<Rightarrow> 'k initializer \<Rightarrow> solver \<Rightarrow> 'k \<Rightarrow> acquisition \<Rightarrow> bounds \<Rightarrow> nat \<Rightarrow> nat \<Rightarrow> nat
     \<Rightarrow> optimizer_error + array \<times> array" where
  "batch sampler initializer solver key acquisition bounds q num_samples num_restarts =
     (case batch_round sampler initializer solver key acquisition bounds q num_samples num_restarts of
        Inl e \<Rightarrow> Inl e
      | Inr (c, s) \<Rightarrow> Inr (of_matrix c, Scalar s))"

text \<open>
  Modelled from the spec: the sequential optimizer runs one round of batch size one per
  output point, each with a key of its own and with an acquisition that sees the points
  chosen so far in front of the new one, and returns the chosen points and one score per
  point.
\<close>

fun sequential_rounds ::
  "'k sampler \<Rightarrow> 'k initializer \<Rightarrow> solver \<Rightarrow> acquisition \<Rightarrow> bounds \<Rightarrow> nat \<Rightarrow> nat
     \<Rightarrow> 'k list \<Rightarrow> candidate \<Rightarrow> fl list \<Rightarrow> optimizer_error + candidate \<times> fl list" where
  "sequential_rounds sampler initializer solver acquisition bounds num_samples num_restarts
     [] chosen scores = Inr (chosen, scores)"
| "sequential_rounds sampler initializer solver acquisition bounds num_samples num_restarts
     (k # ks) chosen scores =
     (case batch_round sampler initializer solver k (\<lambda>c. acquisition (chosen @ c)) bounds 1
             num_samples num_restarts of
        Inl e \<Rightarrow> Inl e
      | Inr (c, s) \<Rightarrow>
          sequential_rounds sampler initializer solver acquisition bounds num_samples num_restarts
            ks (chosen @ c) (scores @ [s]))"

definition sequential ::
  "('k \<Rightarrow> nat \<Rightarrow> 'k list) \<Rightarrow> 'k sampler \<Rightarrow> 'k initializer \<Rightarrow> solver \<Rightarrow> 'k \<Rightarrow> acquisition \<Rightarrow> bounds
     \<Rightarrow> nat \<Rightarrow> nat \<Rightarrow> nat \<Rightarrow> optimizer_error + array \<times> array" where
  "sequential split sampler initializer solver key acquisition bounds q num_samples num_restarts =
     (case sequential_rounds sampler initializer solver acquisition bounds num_samples num_restarts
             (split key q) [] [] of
        Inl e \<Rightarrow> Inl e
      | Inr (c, ss) \<Rightarrow> Inr (of_matrix c, of_vector ss))"

text \<open>What the optimizers require of their collaborators.\<close>

definition has_shape :: "nat \<Rightarrow> nat \<Rightarrow> candidate \<Rightarrow> bool" where
  "has_shape q d c = (length c = q \<and> list_all (\<lambda>row. length row = d) c)"

definition wf_sampler :: "'k sampler \<Rightarrow> bounds \<Rightarrow> bool" where
  "wf_sampler sampler bounds =
     (\<forall>key q n. length (sampler key bounds q n) = n
        \<and> list_all (has_shape q (length bounds)) (sampler key bounds q n))"

definition wf_initializer :: "'k initializer \<Rightarrow> bool" where
  "wf_initializer initializer =
     (\<forall>key pool scores n. pool \<noteq> [] \<longrightarrow>
        (\<exists>rs. initializer key pool scores n = Inr rs \<and> length rs = n \<and> set rs \<subseteq> set pool))"

definition wf_solver :: "solver \<Rightarrow> bool" where
  "wf_solver solver =
     (\<forall>acq bounds rs.
        (rs \<noteq> [] \<longrightarrow> List.map_filter id (solver acq bounds rs) \<noteq> [])
      \<and> (\<forall>q d. list_all (has_shape q d) rs \<longrightarrow>
             list_all (\<lambda>r. has_shape q d (fst r)) (List.map_filter id (solver acq bounds rs))))"

definition wf_split :: "('k \<Rightarrow> nat \<Rightarrow> 'k list) \<Rightarrow> bool" where
  "wf_split split = (\<forall>key n. length (split key n) = n)"

text \<open>
  The collaborators of the optimizer tests: the initializer \<open>random.choice(k, x, (n,))\<close>
  (equal weights), the solver \<open>(c, fun(c))\<close> that returns every restart unchanged with its
  score, and the acquisition \<open>itemgetter((..., 0, 0))\<close>. The sampler of the tests is built
  inside the optimizer; a sampler that returns the lower corner of the bounds stands for it.
\<close>

definition corner_sampler :: "'k sampler" where
  "corner_sampler key bounds q n = replicate n (replicate q (map fst bounds))"

definition uniform_choice :: "('k \<Rightarrow> nat \<Rightarrow> real list) \<Rightarrow> 'k initializer" where
  "uniform_choice uniform key x y n = random_choice uniform key x n (replicate (length x) (Fin 1))"

definition identity_solver :: solver where
  "identity_solver acq bounds cs = map (\<lambda>c. Some (c, acq c)) cs"

definition first_entry :: acquisition where
  "first_entry c = c ! 0 ! 0"

section \<open>Notions used to state the properties\<close>


text \<open>The sum of the first \<open>t\<close> weights.\<close>

definition cum_weight :: "real list \<Rightarrow> nat \<Rightarrow> real" where
  "cum_weight ws t = sum_list (take t ws)"

text \<open>What is assumed of the generator: \<open>n\<close> numbers, each in \<open>[0, 1)\<close>.\<close>

definition wf_uniform :: "('k \<Rightarrow> nat \<Rightarrow> real list) \<Rightarrow> 'k \<Rightarrow> nat \<Rightarrow> bool" where
  "wf_uniform uniform key n =
     (length (uniform key n) = n \<and> list_all (\<lambda>u. 0 \<le> u \<and> u < 1) (uniform key n))"





text \<open>
  The three-regime formula as the specification words it: \<open>log (\<phi> z + z \<Phi> z)\<close> for
  \<open>z > -1\<close>; \<open>log\<phi> z + log (1 - exp (- g z))\<close> with
  \<open>g z = log (erfcx (- z / \<surd>2) * |z|) + log (\<surd>(\<pi> / 2))\<close> for \<open>-1e6 < z \<le> -1\<close>; and
  \<open>log\<phi> z - 2 log |z|\<close> for \<open>z \<le> -1e6\<close>.
\<close>

definition g_spec :: "fl \<Rightarrow> fl" where
  "g_spec z =
     fl_add (fl_log (fl_mul (erfcx (fl_div (fl_neg z) (Fin (sqrt 2)))) (fl_abs z)))
            (fl_log (Fin (sqrt (pi / 2))))"

definition log_ei_spec :: "fl \<Rightarrow> fl" where
  "log_ei_spec z =
     (if fl_gt z (Fin (- 1)) then fl_log (fl_add (norm_pdf z) (fl_mul z (norm_cdf z)))
      else if fl_gt z (Fin (- 1000000))
        then fl_add (norm_logpdf z) (fl_log (fl_sub (Fin 1) (fl_exp (fl_neg (g_spec z)))))
      else fl_sub (norm_logpdf z) (fl_mul (Fin 2) (fl_log (fl_abs z))))"

text \<open>
  The argument that \<open>log_ei_eps\<close> hands to \<open>log1mexp\<close> at \<open>z = -1\<close>:
  \<open>log (erfcx (1/\<surd>2) * |-1|) + log (\<pi>/2) / 2\<close>.
\<close>

definition g1 :: real where
  "g1 = ln (exp ((1 / sqrt 2) * (1 / sqrt 2)) * erfc (1 / sqrt 2) * 1) + ln (pi / 2) / 2"

section \<open>Round trip of the affine bijector\<close>





section \<open>The loop combinator\<close>




section \<open>Drawing by inversion of the cumulated weights\<close>

lemma cumsum_from_Fin:
  "cumsum_from (Fin a) (map Fin ws) = map (\<lambda>t. Fin (a + cum_weight ws (Suc t))) [0..<length ws]"
proof (induction ws arbitrary: a)
  case Nil
  then show ?case by simp
next
  case (Cons w ws)
  have "map (\<lambda>t. Fin (a + cum_weight (w # ws) (Suc t))) [0..<length (w # ws)]
      = Fin (a + w) # map (\<lambda>t. Fin (a + w + cum_weight ws (Suc t))) [0..<length ws]"
    by (simp add: upt_conv_Cons map_Suc_upt[symmetric] cum_weight_def add.assoc del: upt_Suc)
  then show ?case using Cons.IH[of "a + w"] by simp
qed

lemma cumsum_Fin:
  "cumsum (map Fin ws) = map (\<lambda>t. Fin (cum_weight ws (Suc t))) [0..<length ws]"
  by (simp add: cumsum_def cumsum_from_Fin)

lemma cum_weight_mono:
  assumes "\<forall>w \<in> set ws. 0 \<le> w" "i \<le> j"
  shows "cum_weight ws i \<le> cum_weight ws j"
proof -
  have "take j ws = take i ws @ take (j - i) (drop i ws)"
    using assms(2) by (metis le_add_diff_inverse take_add)
  moreover have "0 \<le> sum_list (take (j - i) (drop i ws))"
    using assms(1) by (intro sum_list_nonneg) (meson in_set_dropD in_set_takeD)
  ultimately show ?thesis by (simp add: cum_weight_def)
qed

lemma searchsorted_cumsum:
  assumes nn: "\<forall>w \<in> set ws. 0 \<le> w" and t: "t < length ws"
    and lo: "cum_weight ws t < r" and hi: "r \<le> cum_weight ws (Suc t)"
  shows "searchsorted (cumsum (map Fin ws)) (Fin r) = t"
proof -
  have "{i. i < length ws \<and> cum_weight ws (Suc i) < r} = {i. i < t}"
  proof (intro set_eqI iffI; clarsimp)
    fix i assume "i < length ws" "cum_weight ws (Suc i) < r"
    show "i < t"
    proof (rule ccontr)
      assume "\<not> i < t"
      then have "cum_weight ws (Suc t) \<le> cum_weight ws (Suc i)"
        by (intro cum_weight_mono[OF nn]) simp
      with hi \<open>cum_weight ws (Suc i) < r\<close> show False by simp
    qed
  next
    fix i assume "i < t"
    then have "cum_weight ws (Suc i) \<le> cum_weight ws t"
      by (intro cum_weight_mono[OF nn]) simp
    with lo t \<open>i < t\<close> show "i < length ws \<and> cum_weight ws (Suc i) < r" by simp
  qed
  moreover have "{i. i < length ws \<and>
          fl_less (map (\<lambda>t. Fin (cum_weight ws (Suc t))) [0..<length ws] ! i) (Fin r)}
      = {i. i < length ws \<and> cum_weight ws (Suc i) < r}"
    by auto
  ultimately show ?thesis
    by (simp add: searchsorted_def cumsum_Fin length_filter_conv_card)
qed

lemma cum_interval_exists:
  assumes "0 < r" "r \<le> cum_weight ws (length ws)"
  shows "\<exists>t < length ws. cum_weight ws t < r \<and> r \<le> cum_weight ws (Suc t)"
proof -
  define t where "t = (LEAST t. r \<le> cum_weight ws (Suc t))"
  have ne: "ws \<noteq> []" using assms by (auto simp: cum_weight_def)
  have ex: "r \<le> cum_weight ws (Suc (length ws - 1))" using assms(2) ne by simp
  have 1: "r \<le> cum_weight ws (Suc t)" unfolding t_def using ex by (rule LeastI)
  have "t \<le> length ws - 1" unfolding t_def using ex by (rule Least_le)
  then have 2: "t < length ws" using ne by (cases ws) auto
  have 3: "cum_weight ws t < r"
  proof (cases t)
    case 0 then show ?thesis using assms(1) by (simp add: cum_weight_def)
  next
    case (Suc s)
    have "\<not> r \<le> cum_weight ws (Suc s)"
      using not_less_Least[of s "\<lambda>t. r \<le> cum_weight ws (Suc t)"] Suc unfolding t_def by simp
    then show ?thesis using Suc by simp
  qed
  from 1 2 3 show ?thesis by blast
qed

lemma last_cumsum:
  "ws \<noteq> [] \<Longrightarrow> last (cumsum (map Fin ws)) = Fin (cum_weight ws (length ws))"
  by (simp add: cumsum_Fin last_map last_upt)

section \<open>Acquisition values\<close>

lemma sqrt_diag_square:
  "\<forall>row \<in> set cov. length row = length cov \<Longrightarrow>
   sqrt_diag cov = Inr (map (\<lambda>i. fl_sqrt (cov ! i ! i)) [0..<length cov])"
  by (simp add: sqrt_diag_def diag_def comp_def)




text \<open>
  C6. Let the process return the mean vector \<open>loc\<close> and a square covariance matrix \<open>cov\<close>
  for the candidates. At every position \<open>i\<close> with finite mean \<open>m\<close>, finite best value \<open>b\<close>
  and positive finite variance \<open>v = cov[i][i]\<close>, so that \<open>scale = \<surd>v > 0\<close>, the score
  returned by \<open>log_probability_of_improvement\<close> is \<open>log (\<Phi> ((m - b) / \<surd>v))\<close>.
\<close>

theorem log_probability_of_improvement_value:
  assumes "process candidates = (loc, cov)"
    and "\<forall>row \<in> set cov. length row = length cov"
    and "length loc = length cov"
    and "i < length cov"
    and "loc ! i = Fin m" and "cov ! i ! i = Fin v" and "0 < v"
  shows "\<exists>ys. log_probability_of_improvement (Fin b) process candidates = Inr ys
           \<and> length ys = length cov
           \<and> ys ! i = Fin (ln (std_normal_cdf ((m - b) / sqrt v)))"
  using assms
  by (simp add: log_probability_of_improvement_def sqrt_diag_square scale_improvement_def
        ew2_def fl_sub_def)

theorem log_probability_of_improvement_value_witness:
  "\<exists>ys. log_probability_of_improvement (Fin 1) (\<lambda>c::unit. ([Fin 0, Fin 3], [[Fin 4, Fin 0], [Fin 0, Fin 9]])) ()
          = Inr ys
       \<and> length ys = 2
       \<and> ys ! 1 = Fin (ln (std_normal_cdf ((3 - 1) / sqrt 9)))"
  using log_probability_of_improvement_value
    [of "\<lambda>c::unit. ([Fin 0, Fin 3], [[Fin 4, Fin 0], [Fin 0, Fin 9]])" "()"
        "[Fin 0, Fin 3]" "[[Fin 4, Fin 0], [Fin 0, Fin 9]]" 1 3 9 1]
  by (simp add: numeral_2_eq_2)




section \<open>Results of \<open>random_choice\<close>\<close>

lemma random_choice_finite:
  assumes nn: "\<forall>w \<in> set ws. 0 \<le> w" and pos: "0 < cum_weight ws (length ws)"
    and len: "length a = length ws" and U: "wf_uniform uniform key n"
  shows "\<exists>rows. random_choice uniform key a n (map Fin ws) = Inr rows \<and> length rows = n
          \<and> (\<forall>j<n. \<exists>t<length a. rows ! j = a ! t
                \<and> cum_weight ws t < cum_weight ws (length ws) * (1 - uniform key n ! j)
                \<and> cum_weight ws (length ws) * (1 - uniform key n ! j) \<le> cum_weight ws (Suc t))"
proof (cases "n = 0")
  case True
  then show ?thesis by (simp add: random_choice_def)
next
  case False
  let ?W = "cum_weight ws (length ws)"
  have ne: "ws \<noteq> []" using pos by (auto simp: cum_weight_def)
  have lenU: "length (uniform key n) = n" using U by (simp add: wf_uniform_def)
  define rows where "rows = map (\<lambda>u. take_row a (searchsorted (cumsum (map Fin ws)) (Fin (?W * (1 - u)))))
                        (uniform key n)"
  have eq: "random_choice uniform key a n (map Fin ws) = Inr rows"
    using False ne len
    by (simp add: random_choice_def Let_def last_cumsum fl_sub_def rows_def comp_def)
  have "\<exists>t<length a. rows ! j = a ! t \<and> cum_weight ws t < ?W * (1 - uniform key n ! j)
            \<and> ?W * (1 - uniform key n ! j) \<le> cum_weight ws (Suc t)" if j: "j < n" for j
  proof -
    let ?u = "uniform key n ! j"
    have "?u \<in> set (uniform key n)" using j lenU by simp
    then have u: "0 \<le> ?u" "?u < 1" using U by (auto simp: wf_uniform_def list_all_iff)
    have r0: "0 < ?W * (1 - ?u)" using pos u by simp
    have r1: "?W * (1 - ?u) \<le> ?W" using pos u by (simp add: mult_le_cancel_left1)
    from cum_interval_exists[OF r0 r1] obtain t where t: "t < length ws"
      "cum_weight ws t < ?W * (1 - ?u)" "?W * (1 - ?u) \<le> cum_weight ws (Suc t)" by blast
    have "searchsorted (cumsum (map Fin ws)) (Fin (?W * (1 - ?u))) = t"
      using searchsorted_cumsum[OF nn t] .
    then have "rows ! j = a ! t"
      using j lenU t(1) len by (simp add: rows_def take_row_def)
    with t len show ?thesis by auto
  qed
  with eq lenU show ?thesis by (auto simp: rows_def)
qed

section \<open>Weighted resampling\<close>







lemma cum_weight_pos:
  assumes "ws \<noteq> []" "\<forall>w \<in> set ws. 0 < w"
  shows "0 < cum_weight ws (length ws)"
proof -
  from assms(1) obtain w ws' where ws: "ws = w # ws'" by (cases ws) auto
  have "0 \<le> sum_list ws'" using assms(2) ws by (intro sum_list_nonneg) auto
  moreover have "0 < w" using assms(2) ws by simp
  ultimately show ?thesis by (simp add: cum_weight_def ws)
qed

lemma cum_weight_replicate: "t \<le> m \<Longrightarrow> cum_weight (replicate m 1) t = real t"
  by (simp add: cum_weight_def sum_list_replicate min_def)





section \<open>The shrink loop of the nonnegative initializer\<close>





















section \<open>Numerical bounds at the regime boundary\<close>

lemma pi_ge_3: "3 \<le> pi"
proof -
  have "sin (pi / 6) \<le> pi / 6" by (rule sin_x_le_x) simp
  then show ?thesis by (simp add: sin_30)
qed

lemma arctan_le_self:
  assumes "0 \<le> x"
  shows "arctan x \<le> x"
proof -
  have "0 - arctan 0 \<le> x - arctan x"
  proof (rule DERIV_nonneg_imp_nondecreasing[OF assms, of "\<lambda>t. t - arctan t"])
    fix t :: real
    assume "0 \<le> t" "t \<le> x"
    have "((\<lambda>t. t - arctan t) has_real_derivative 1 - inverse (1 + t\<^sup>2)) (at t)"
      by (intro derivative_intros DERIV_arctan)
    moreover have "0 \<le> 1 - inverse (1 + t\<^sup>2)"
      by (simp add: inverse_le_1_iff)
    ultimately show "\<exists>y. ((\<lambda>t. t - arctan t) has_real_derivative y) (at t) \<and> 0 \<le> y" by blast
  qed
  then show ?thesis by simp
qed

lemma pi_le_32: "pi \<le> 16 / 5"
proof -
  have "arctan (1 / 5) \<le> 1 / 5" by (rule arctan_le_self) simp
  moreover have "0 \<le> arctan (1 / 239)" by simp
  ultimately have "4 * arctan (1 / 5) - arctan (1 / 239) \<le> 4 / 5" by linarith
  then show ?thesis using machin by simp
qed

lemma exp_half_ge: "3 / 2 \<le> exp (1 / 2 :: real)"
  using exp_ge_add_one_self[of "1 / 2 :: real"] by simp

lemma exp_half_le: "exp (1 / 2 :: real) \<le> 441 / 256"
proof -
  have "exp (1 / 4 :: real) \<le> 1 + 1 / 4 + (1 / 4)\<^sup>2" by (rule exp_bound) simp_all
  then have q: "exp (1 / 4 :: real) \<le> 21 / 16" by (simp add: power2_eq_square)
  have "exp (1 / 2 :: real) = exp (1 / 4) * exp (1 / 4)" by (simp flip: exp_add)
  also have "\<dots> \<le> (21 / 16) * (21 / 16)" by (intro mult_mono q) simp_all
  finally show ?thesis by simp
qed

lemma erf_term_nonneg: "0 \<le> x \<Longrightarrow> 0 \<le> erf_term x n"
  by (simp add: erf_term_def)

lemma erf_term_decreasing:
  assumes "0 \<le> x" "x \<le> 1"
  shows "erf_term x (Suc n) \<le> erf_term x n"
proof -
  have p: "x ^ (2 * Suc n + 1) \<le> x ^ (2 * n + 1)"
    using assms by (intro power_decreasing) simp_all
  have d: "fact n * real (2 * n + 1) \<le> fact (Suc n) * real (2 * Suc n + 1)"
    by (intro mult_mono) (simp_all add: fact_mono)
  have "erf_term x (Suc n) \<le> x ^ (2 * n + 1) / (fact (Suc n) * real (2 * Suc n + 1))"
    unfolding erf_term_def by (intro divide_right_mono p) simp
  also have "\<dots> \<le> x ^ (2 * n + 1) / (fact n * real (2 * n + 1))"
    using assms(1) by (intro divide_left_mono d mult_pos_pos) simp_all
  finally show ?thesis by (simp add: erf_term_def)
qed

lemma erf_term_le_inverse:
  assumes "0 \<le> x" "x \<le> 1"
  shows "erf_term x n \<le> inverse (real (Suc n))"
proof -
  have "x ^ (2 * n + 1) \<le> 1" using assms by (intro power_le_one) simp_all
  moreover have "real (Suc n) \<le> fact n * real (2 * n + 1)"
  proof -
    have "1 * real (Suc n) \<le> fact n * real (2 * n + 1)"
      by (intro mult_mono) (simp_all add: fact_ge_1)
    then show ?thesis by simp
  qed
  ultimately have "x ^ (2 * n + 1) / (fact n * real (2 * n + 1)) \<le> 1 / real (Suc n)"
    by (intro frac_le) simp_all
  then show ?thesis by (simp add: erf_term_def inverse_eq_divide)
qed

lemma erf_term_tendsto_0:
  assumes "0 \<le> x" "x \<le> 1"
  shows "(\<lambda>n. erf_term x n) \<longlonglongrightarrow> 0"
proof (rule tendsto_sandwich[OF _ _ tendsto_const LIMSEQ_inverse_real_of_nat])
  show "\<forall>\<^sub>F n in sequentially. 0 \<le> erf_term x n"
    using erf_term_nonneg[OF assms(1)] by simp
  show "\<forall>\<^sub>F n in sequentially. erf_term x n \<le> inverse (real (Suc n))"
    using erf_term_le_inverse[OF assms] by simp
qed

lemma erf_series_bounds:
  assumes "0 \<le> x" "x \<le> 1"
  shows "x - x ^ 3 / 3 \<le> (\<Sum>n. (- 1) ^ n * erf_term x n)"
    and "(\<Sum>n. (- 1) ^ n * erf_term x n) \<le> x - x ^ 3 / 3 + x ^ 5 / 10"
proof -
  note L = summable_Leibniz'[OF erf_term_tendsto_0[OF assms] erf_term_nonneg[OF assms(1)]
      erf_term_decreasing[OF assms]]
  have "(\<Sum>i<2 * 1. (- 1) ^ i * erf_term x i) \<le> (\<Sum>n. (- 1) ^ n * erf_term x n)" by (rule L(2))
  moreover have "(\<Sum>i<2 * 1. (- 1) ^ i * erf_term x i) = x - x ^ 3 / 3"
    by (simp add: erf_term_def numeral_2_eq_2 lessThan_Suc power3_eq_cube)
  ultimately show "x - x ^ 3 / 3 \<le> (\<Sum>n. (- 1) ^ n * erf_term x n)" by simp
  have "(\<Sum>n. (- 1) ^ n * erf_term x n) \<le> (\<Sum>i<2 * 1 + 1. (- 1) ^ i * erf_term x i)" by (rule L(4))
  moreover have "(\<Sum>i<2 * 1 + 1. (- 1) ^ i * erf_term x i) = x - x ^ 3 / 3 + x ^ 5 / 10"
    by (simp add: erf_term_def numeral_3_eq_3 lessThan_Suc power3_eq_cube eval_nat_numeral)
  ultimately show "(\<Sum>n. (- 1) ^ n * erf_term x n) \<le> x - x ^ 3 / 3 + x ^ 5 / 10" by simp
qed


lemma sqrt_half_pi_bounds: "11 / 9 \<le> sqrt (pi / 2)" "sqrt (pi / 2) \<le> 253 / 200"
proof -
  have "(11 / 9)\<^sup>2 \<le> pi / 2" using pi_ge_3 by (simp add: power2_eq_square)
  then show "11 / 9 \<le> sqrt (pi / 2)" by (rule real_le_rsqrt)
  have "pi / 2 \<le> (253 / 200)\<^sup>2" using pi_le_32 by (simp add: power2_eq_square)
  then show "sqrt (pi / 2) \<le> 253 / 200" by (intro real_le_lsqrt) simp_all
qed

lemma inv_sqrt2_powers:
  "(1 / sqrt 2) ^ 3 = (1 / sqrt 2) / 2" "(1 / sqrt 2) ^ 5 = (1 / sqrt 2) / 4"
proof -
  have s: "sqrt 2 * sqrt 2 = (2::real)" by simp
  have q: "(1 / sqrt 2) * (1 / sqrt 2) = (1 / 2 :: real)" using s by (simp add: field_simps)
  show "(1 / sqrt 2) ^ 3 = (1 / sqrt 2) / 2"
    unfolding power3_eq_cube mult.assoc q by simp
  have "(1 / sqrt 2) ^ 5 = (1 / sqrt 2) * ((1 / sqrt 2) * (1 / sqrt 2)) * ((1 / sqrt 2) * (1 / sqrt 2))"
    by (simp add: eval_nat_numeral)
  then show "(1 / sqrt 2) ^ 5 = (1 / sqrt 2) / 4" unfolding q by simp
qed

lemma erf_scale: "2 / sqrt pi * (1 / sqrt 2) = 1 / sqrt (pi / 2)"
proof -
  have "sqrt 2 * sqrt 2 = (2::real)" by simp
  then have "2 / sqrt 2 = sqrt 2" by (simp add: field_simps)
  then have "2 / sqrt pi * (1 / sqrt 2) = sqrt 2 / sqrt pi" by (simp add: field_simps)
  also have "\<dots> = 1 / sqrt (pi / 2)" by (simp add: real_sqrt_divide)
  finally show ?thesis .
qed

lemma erfc_inv_sqrt2_bounds:
  "1 - (103 / 120) / sqrt (pi / 2) \<le> erfc (1 / sqrt 2)"
  "erfc (1 / sqrt 2) \<le> 1 - (5 / 6) / sqrt (pi / 2)"
proof -
  let ?a = "1 / sqrt 2 :: real" and ?S = "\<Sum>n. (- 1) ^ n * erf_term (1 / sqrt 2) n"
  have a: "0 \<le> ?a" "?a \<le> 1" by simp_all
  have lo: "5 / 6 * ?a \<le> ?S" using erf_series_bounds(1)[OF a] by (simp add: inv_sqrt2_powers)
  have hi: "?S \<le> 103 / 120 * ?a" using erf_series_bounds(2)[OF a] by (simp add: inv_sqrt2_powers)
  have c: "0 \<le> 2 / sqrt pi" by simp
  have "erf ?a \<le> 2 / sqrt pi * (103 / 120 * ?a)"
    unfolding erf_def by (rule mult_left_mono[OF hi c])
  also have "\<dots> = 103 / 120 * (2 / sqrt pi * ?a)" by simp
  also have "\<dots> = (103 / 120) / sqrt (pi / 2)" unfolding erf_scale by simp
  finally show "1 - (103 / 120) / sqrt (pi / 2) \<le> erfc ?a" by (simp add: erfc_def)
  have "(5 / 6) / sqrt (pi / 2) = 5 / 6 * (2 / sqrt pi * ?a)" unfolding erf_scale by simp
  also have "\<dots> = 2 / sqrt pi * (5 / 6 * ?a)" by simp
  also have "\<dots> \<le> erf ?a" unfolding erf_def by (rule mult_left_mono[OF lo c])
  finally show "erfc ?a \<le> 1 - (5 / 6) / sqrt (pi / 2)" by (simp add: erfc_def)
qed

text \<open>The ratio \<open>\<Phi>(-1) / \<phi>(-1)\<close>, which is \<open>exp (g (-1))\<close>.\<close>

lemma mills_bounds:
  "1 / 2 < exp (1 / 2) * erfc (1 / sqrt 2) * sqrt (pi / 2)"
  "exp (1 / 2) * erfc (1 / sqrt 2) * sqrt (pi / 2) < 3 / 4"
proof -
  let ?r = "sqrt (pi / 2)" and ?c = "erfc (1 / sqrt 2)" and ?e = "exp (1 / 2 :: real)"
  have r: "0 < ?r" by simp
  have d: "(1 - k / ?r) * ?r = ?r - k" for k :: real
    using r by (simp add: left_diff_distrib)
  have lo: "?r - 103 / 120 \<le> ?c * ?r"
    using mult_right_mono[OF erfc_inv_sqrt2_bounds(1), of ?r] r unfolding d by simp
  have hi: "?c * ?r \<le> ?r - 5 / 6"
    using mult_right_mono[OF erfc_inv_sqrt2_bounds(2), of ?r] r unfolding d by simp
  have "1 / 2 < (3 / 2) * (11 / 9 - 103 / 120 :: real)" by simp
  also have "\<dots> \<le> ?e * (?r - 103 / 120)"
    using exp_half_ge sqrt_half_pi_bounds(1) by (intro mult_mono) simp_all
  also have "\<dots> \<le> ?e * (?c * ?r)" by (intro mult_left_mono lo) simp
  finally show "1 / 2 < ?e * ?c * ?r" by (simp add: mult.assoc)
  have c0: "0 \<le> ?c * ?r" using lo sqrt_half_pi_bounds(1) by simp
  have "?e * ?c * ?r = ?e * (?c * ?r)" by (simp add: mult.assoc)
  also have "\<dots> \<le> (441 / 256) * (?c * ?r)" by (intro mult_right_mono exp_half_le c0)
  also have "\<dots> \<le> (441 / 256) * (?r - 5 / 6)" by (intro mult_left_mono hi) simp
  also have "\<dots> \<le> (441 / 256) * (253 / 200 - 5 / 6)"
    using sqrt_half_pi_bounds(2) by (intro mult_left_mono) simp_all
  also have "\<dots> < 3 / 4" by simp
  finally show "?e * ?c * ?r < 3 / 4" .
qed

lemma powr_neg_half: "2 powr (- (1 / 2)) = (1 / sqrt 2 :: real)"
  by (simp add: powr_minus powr_half_sqrt inverse_eq_divide)


lemma inv_sqrt2_sq: "(1 / sqrt 2) * (1 / sqrt 2) = (1 / 2 :: real)"
proof -
  have "sqrt 2 * sqrt 2 = (2::real)" by simp
  then show ?thesis by (simp add: field_simps)
qed

lemma erfc_inv_sqrt2_pos: "0 < erfc (1 / sqrt 2)"
proof -
  have "0 < exp (1 / 2) * erfc (1 / sqrt 2) * sqrt (pi / 2)" using mills_bounds(1) by simp
  then show ?thesis by (simp add: zero_less_mult_iff)
qed

lemma exp_g1: "exp g1 = exp (1 / 2) * erfc (1 / sqrt 2) * sqrt (pi / 2)"
proof -
  have p: "0 < exp (1 / 2 :: real) * erfc (1 / sqrt 2)" using erfc_inv_sqrt2_pos by simp
  have "exp (ln (pi / 2) / 2) = sqrt (pi / 2)"
  proof -
    have "exp (ln (pi / 2) / 2) * exp (ln (pi / 2) / 2) = pi / 2"
      by (simp flip: exp_add)
    then have "(exp (ln (pi / 2) / 2))\<^sup>2 = pi / 2" by (simp only: power2_eq_square)
    then have "sqrt (pi / 2) = exp (ln (pi / 2) / 2)" by (rule real_sqrt_unique) simp
    then show ?thesis by simp
  qed
  then show ?thesis using p by (simp add: g1_def inv_sqrt2_sq exp_add)
qed

lemma g_at_minus_one:
  "fl_add (fl_log (fl_mul (erfcx (fl_mul neg_inv_sqrt2 (Fin (- 1)))) (fl_abs (Fin (- 1)))))
          log_sqrt_pi_div_2 = Fin g1"
proof -
  have p: "0 < exp ((1 / sqrt 2) * (1 / sqrt 2)) * erfc (1 / sqrt 2)"
    using erfc_inv_sqrt2_pos by simp
  show ?thesis using p
    by (simp add: neg_inv_sqrt2_def powr_neg_half erfcx_def log_sqrt_pi_div_2_def g1_def
        del: fl_log.simps) (simp add: inv_sqrt2_sq)
qed

lemma g1_bounds: "- ln 2 < g1" "g1 < - (1 / 4)"
proof -
  have "exp (- ln 2) = (1 / 2 :: real)" by (simp add: exp_minus inverse_eq_divide)
  then have "exp (- ln 2) < exp g1" using mills_bounds(1) by (simp add: exp_g1)
  then show "- ln 2 < g1" by simp
  have "3 / 4 \<le> exp (- (1 / 4) :: real)" using exp_ge_add_one_self[of "- (1 / 4) :: real"] by simp
  then have "exp g1 < exp (- (1 / 4))" using mills_bounds(2) by (simp add: exp_g1)
  then show "g1 < - (1 / 4)" by simp
qed

lemma log_ei_eps_at_minus_one: "log_ei_eps (Fin (- 1)) = Fin (ln (exp (- g1) - 1))"
proof -
  have "0 < exp (- g1) - 1" using g1_bounds(2) by simp
  then show ?thesis
    unfolding log_ei_eps_def g_at_minus_one using g1_bounds(1)
    by (simp add: log1mexp_def log2_const_def fl_expm1_def fl_sub_def)
qed

lemma log_ei_at_minus_one:
  "log_ei (Fin (- 1)) = Fin (- (1 / 2) - ln (2 * pi) / 2 + ln (exp (- g1) - 1))"
  by (simp add: log_ei_def Let_def fl_gt_def neg_inv_sqrt_eps_def log_ei_eps_at_minus_one)

lemma cdf_over_pdf_at_minus_one:
  "std_normal_cdf (- 1) = std_normal_pdf (- 1) * exp g1"
proof -
  have s: "sqrt (2 * pi) = 2 * sqrt (pi / 2)"
  proof -
    have "sqrt (2 * pi) = sqrt (4 * (pi / 2))" by simp
    also have "\<dots> = sqrt 4 * sqrt (pi / 2)" by (rule real_sqrt_mult)
    also have "sqrt 4 = (2::real)" using real_sqrt_abs[of 2] by simp
    finally show ?thesis .
  qed
  have e: "exp (- (1 / 2)) * exp (1 / 2) = (1::real)" by (simp flip: exp_add)
  have "std_normal_pdf (- 1) * exp g1
        = (exp (- (1 / 2)) * exp (1 / 2)) * erfc (1 / sqrt 2) * (sqrt (pi / 2) / sqrt (2 * pi))"
    by (simp add: std_normal_pdf_def exp_g1)
  also have "\<dots> = erfc (1 / sqrt 2) / 2" unfolding e s by simp
  finally show ?thesis by (simp add: std_normal_cdf_def)
qed

lemma pdf_at_minus_one_pos: "0 < std_normal_pdf (- 1)"
  by (simp add: std_normal_pdf_def)

lemma ln_pdf_at_minus_one: "ln (std_normal_pdf (- 1)) = - (1 / 2) - ln (2 * pi) / 2"
  by (simp add: std_normal_pdf_def ln_div ln_sqrt)

lemma exp_g1_less_1: "exp g1 < 1" "0 < exp g1"
  using g1_bounds(2) by simp_all

lemma log_ei_upper_at_minus_one:
  "log_ei_upper (Fin (- 1)) = Fin (- (1 / 2) - ln (2 * pi) / 2 + ln (1 - exp g1))"
proof -
  have d: "std_normal_pdf (- 1) - std_normal_cdf (- 1) = std_normal_pdf (- 1) * (1 - exp g1)"
    by (simp add: cdf_over_pdf_at_minus_one right_diff_distrib)
  have p: "0 < std_normal_pdf (- 1) * (1 - exp g1)"
    using pdf_at_minus_one_pos exp_g1_less_1(1) by simp
  have "ln (std_normal_pdf (- 1) * (1 - exp g1)) = ln (std_normal_pdf (- 1)) + ln (1 - exp g1)"
    using pdf_at_minus_one_pos exp_g1_less_1(1) by (intro ln_mult_pos) simp_all
  then show ?thesis using p d
    by (simp add: log_ei_upper_def ln_pdf_at_minus_one)
qed

lemma ln_expm1_neg_g1: "ln (exp (- g1) - 1) = ln (1 - exp g1) - g1"
proof -
  have "exp (- g1) - 1 = (1 - exp g1) / exp g1" by (simp add: exp_minus field_simps)
  moreover have "ln ((1 - exp g1) / exp g1) = ln (1 - exp g1) - ln (exp g1)"
    using exp_g1_less_1 by (intro ln_divide_pos) simp_all
  ultimately show ?thesis by simp
qed

text \<open>
  C4 on the code. At \<open>z = -1\<close> the function \<open>log_ei\<close> takes the middle regime, and its value
  there exceeds the value of the direct formula \<open>log (\<phi> z + z \<Phi> z)\<close> at the same point by
  more than \<open>1/4\<close> (by \<open>- g (-1)\<close>, about \<open>0.42\<close>): the two formulas do not agree at the
  boundary, far outside any floating tolerance.
\<close>

theorem log_ei_jump_at_bound:
  "\<exists>m u. log_ei (Fin (- 1)) = Fin m \<and> log_ei_upper (Fin (- 1)) = Fin u \<and> 1 / 4 < m - u"
proof -
  let ?m = "- (1 / 2) - ln (2 * pi) / 2 + ln (exp (- g1) - 1)"
  let ?u = "- (1 / 2) - ln (2 * pi) / 2 + ln (1 - exp g1)"
  have "?m - ?u = - g1" by (simp add: ln_expm1_neg_g1)
  then have "1 / 4 < ?m - ?u" using g1_bounds(2) by simp
  with log_ei_at_minus_one log_ei_upper_at_minus_one show ?thesis by blast
qed

lemma g_spec_at_minus_one: "g_spec (Fin (- 1)) = Fin g1"
proof -
  have p: "0 < exp ((1 / sqrt 2) * (1 / sqrt 2)) * erfc (1 / sqrt 2)"
    using erfc_inv_sqrt2_pos by simp
  have l: "ln (sqrt (pi / 2)) = ln (pi / 2) / 2" by (rule ln_sqrt) simp
  show ?thesis using p
    by (simp add: g_spec_def erfcx_def g1_def l del: fl_log.simps) (simp add: inv_sqrt2_sq l)
qed

lemma log_ei_upper_regime:
  "- 1 < z \<Longrightarrow> log_ei (Fin z) = log_ei_spec (Fin z)"
  by (simp add: log_ei_def log_ei_spec_def Let_def fl_gt_def log_ei_upper_def)

lemma log_ei_tail_regime:
  "z \<le> - 1000000 \<Longrightarrow> log_ei (Fin z) = log_ei_spec (Fin z)"
  by (simp add: log_ei_def log_ei_spec_def Let_def fl_gt_def log_ei_lower_def
        neg_inv_sqrt_eps_def fl_sub_def)

text \<open>
  C1 on the code. At \<open>z = -1\<close>, in the middle regime, \<open>log_ei\<close> returns a finite number,
  \<open>log\<phi> (-1) + log (exp (- g) - 1)\<close>, while the formula of the specification,
  \<open>log\<phi> (-1) + log (1 - exp (- g))\<close>, is the logarithm of a negative number: \<open>log1mexp\<close>
  computes \<open>log (expm1 (- x))\<close>, not \<open>log (1 - exp (- x))\<close> and not \<open>log (1 - exp x)\<close>.
\<close>

theorem log_ei_middle_regime_mismatch:
  "(\<exists>m. log_ei (Fin (- 1)) = Fin m) \<and> log_ei_spec (Fin (- 1)) = NaN"
proof -
  have "1 - exp (- g1) < 0" using g1_bounds(2) by simp
  then have "log_ei_spec (Fin (- 1)) = NaN"
    by (simp add: log_ei_spec_def fl_gt_def g_spec_at_minus_one fl_sub_def)
  with log_ei_at_minus_one show ?thesis by blast
qed

section \<open>Shapes of the optimizer results\<close>

lemma shape_of_vector: "shape (of_vector v) = [length v]"
  by (cases v) (simp_all add: of_vector_def)

lemma shape_of_matrix:
  assumes "has_shape q d c" "0 < q"
  shows "shape (of_matrix c) = [q, d]"
proof -
  from assms obtain row rows where c: "c = row # rows" by (cases c) (auto simp: has_shape_def)
  with assms(1) have "length row = d" "Suc (length rows) = q" by (auto simp: has_shape_def)
  then show ?thesis by (simp add: c of_matrix_def shape_of_vector)
qed

lemma best_of_in: "best_of b rs \<in> set (b # rs)"
  by (induction rs arbitrary: b) auto

lemma has_shape_append:
  "has_shape i d a \<Longrightarrow> has_shape j d b \<Longrightarrow> has_shape (i + j) d (a @ b)"
  by (simp add: has_shape_def)

lemma batch_round_shape:
  assumes S: "wf_sampler sampler bounds" and I: "wf_initializer initializer" and V: "wf_solver solver"
    and ns: "0 < num_samples" and nr: "0 < num_restarts"
  shows "\<exists>c s. batch_round sampler initializer solver key acquisition bounds q num_samples num_restarts
                 = Inr (c, s) \<and> has_shape q (length bounds) c"
proof -
  let ?pool = "sampler key bounds q num_samples"
  have pl: "length ?pool = num_samples" and ps: "list_all (has_shape q (length bounds)) ?pool"
    using S by (simp_all add: wf_sampler_def)
  have pne: "?pool \<noteq> []" using pl ns by auto
  from I pne obtain rs where rs: "initializer key ?pool (map acquisition ?pool) num_restarts = Inr rs"
    "length rs = num_restarts" "set rs \<subseteq> set ?pool"
    unfolding wf_initializer_def by blast
  have rne: "rs \<noteq> []" using rs(2) nr by auto
  have rsh: "list_all (has_shape q (length bounds)) rs"
    using ps rs(3) by (auto simp: list_all_iff)
  let ?out = "List.map_filter id (solver acquisition bounds rs)"
  have one: "?out \<noteq> []" using V rne unfolding wf_solver_def by blast
  have osh: "list_all (\<lambda>r. has_shape q (length bounds) (fst r)) ?out"
    using V rsh unfolding wf_solver_def by blast
  from one obtain r rest where out: "?out = r # rest" by (cases ?out) auto
  have "best_of r rest \<in> set ?out" unfolding out by (rule best_of_in)
  then have b: "has_shape q (length bounds) (fst (best_of r rest))"
    using osh by (simp add: list_all_iff)
  have "batch_round sampler initializer solver key acquisition bounds q num_samples num_restarts
        = Inr (best_of r rest)"
    by (simp add: batch_round_def Let_def rs(1) out)
  with b show ?thesis by (cases "best_of r rest") auto
qed

lemma sequential_rounds_shape:
  assumes S: "wf_sampler sampler bounds" and I: "wf_initializer initializer" and V: "wf_solver solver"
    and ns: "0 < num_samples" and nr: "0 < num_restarts"
  shows "has_shape i (length bounds) chosen \<Longrightarrow> length scores = i \<Longrightarrow>
         \<exists>c ss. sequential_rounds sampler initializer solver acquisition bounds num_samples
                    num_restarts ks chosen scores = Inr (c, ss)
               \<and> has_shape (i + length ks) (length bounds) c \<and> length ss = i + length ks"
proof (induction ks arbitrary: chosen scores i)
  case Nil
  then show ?case by simp
next
  case (Cons k ks)
  from batch_round_shape[OF S I V ns nr, of k "\<lambda>c. acquisition (chosen @ c)" 1]
  obtain c1 s1 where r: "batch_round sampler initializer solver k (\<lambda>c. acquisition (chosen @ c))
      bounds 1 num_samples num_restarts = Inr (c1, s1)" "has_shape 1 (length bounds) c1"
    by blast
  have "has_shape (i + 1) (length bounds) (chosen @ c1)"
    using Cons.prems(1) r(2) by (rule has_shape_append)
  moreover have "length (scores @ [s1]) = i + 1" using Cons.prems(2) by simp
  ultimately obtain c ss where
    "sequential_rounds sampler initializer solver acquisition bounds num_samples num_restarts
        ks (chosen @ c1) (scores @ [s1]) = Inr (c, ss)"
    "has_shape (i + 1 + length ks) (length bounds) c" "length ss = i + 1 + length ks"
    using Cons.IH by blast
  then show ?case by (simp add: r(1)[unfolded One_nat_def])
qed

text \<open>
  C5. With a sampler that returns \<open>num_samples\<close> candidate sets of shape \<open>(q, d)\<close>, an
  initializer that returns \<open>num_restarts\<close> rows of the pool, a solver that keeps shapes and
  converges from at least one restart, and \<open>q\<close>, \<open>num_samples\<close>, \<open>num_restarts\<close> positive,
  the batch optimizer returns a candidate of shape \<open>(q, d)\<close> and a score of shape \<open>()\<close>,
  and the sequential optimizer on the same inputs returns a candidate of shape \<open>(q, d)\<close>
  and a score of shape \<open>(q)\<close>, where \<open>d\<close> is the number of bounds. The instance below is the case
  of the tests: bounds \<open>[[-1, 1]]\<close>, \<open>q = 3\<close>, 100 samples, 10 restarts, with shapes
  \<open>(3, 1)\<close>, \<open>()\<close> and \<open>(3, 1)\<close>, \<open>(3)\<close>.
\<close>

theorem optimizer_shapes:
  assumes "wf_sampler sampler bounds" and "wf_initializer initializer" and "wf_solver solver"
    and "wf_split split" and "0 < q" and "0 < num_samples" and "0 < num_restarts"
  shows "\<exists>bc bs sc ss.
           batch sampler initializer solver key acquisition bounds q num_samples num_restarts
             = Inr (bc, bs)
         \<and> shape bc = [q, length bounds] \<and> shape bs = []
         \<and> sequential split sampler initializer solver key acquisition bounds q num_samples
               num_restarts = Inr (sc, ss)
         \<and> shape sc = [q, length bounds] \<and> shape ss = [q]"
proof -
  from batch_round_shape[OF assms(1-3,6,7), of key acquisition q]
  obtain c s where b: "batch_round sampler initializer solver key acquisition bounds q num_samples
      num_restarts = Inr (c, s)" "has_shape q (length bounds) c"
    by blast
  have B: "batch sampler initializer solver key acquisition bounds q num_samples num_restarts
           = Inr (of_matrix c, Scalar s)"
    by (simp add: batch_def b(1))
  have e: "has_shape 0 (length bounds) []" by (simp add: has_shape_def)
  have l: "length (split key q) = q" using assms(4) by (simp add: wf_split_def)
  from sequential_rounds_shape[OF assms(1-3,6,7) e, of "[]" acquisition "split key q"] l
  obtain c' ss where q: "sequential_rounds sampler initializer solver acquisition bounds num_samples
      num_restarts (split key q) [] [] = Inr (c', ss)" "has_shape q (length bounds) c'" "length ss = q"
    by auto
  have Q: "sequential split sampler initializer solver key acquisition bounds q num_samples
             num_restarts = Inr (of_matrix c', of_vector ss)"
    by (simp add: sequential_def q(1))
  show ?thesis
    by (intro exI[of _ "of_matrix c"] exI[of _ "Scalar s"] exI[of _ "of_matrix c'"]
          exI[of _ "of_vector ss"])
       (simp add: B Q shape_of_matrix[OF b(2) assms(5)] shape_of_matrix[OF q(2) assms(5)]
          shape_of_vector q(3))
qed





lemma map_filter_id_Some: "List.map_filter id (map (\<lambda>c. Some (f c)) cs) = map f cs"
  by (induction cs) (simp_all add: List.map_filter_simps)

lemma wf_uniform_choice:
  assumes "\<And>key n. wf_uniform uniform key n"
  shows "wf_initializer (uniform_choice uniform)"
  unfolding wf_initializer_def
proof (intro allI impI)
  fix key :: 'a and pool :: "candidate list" and scores :: "fl list" and n :: nat
  assume ne: "pool \<noteq> []"
  let ?ws = "replicate (length pool) (1::real)"
  have nn: "\<forall>w \<in> set ?ws. 0 \<le> w" by simp
  have pos: "0 < cum_weight ?ws (length ?ws)"
    using ne by (intro cum_weight_pos) auto
  have len: "length pool = length ?ws" by simp
  from random_choice_finite[OF nn pos len assms, of key n]
  obtain rows where rows: "random_choice uniform key pool n (map Fin ?ws) = Inr rows"
    "length rows = n" "\<forall>j<n. \<exists>t<length pool. rows ! j = pool ! t"
    by blast
  have "set rows \<subseteq> set pool"
  proof
    fix r assume "r \<in> set rows"
    then obtain j where "j < n" "rows ! j = r" using rows(2) by (auto simp: in_set_conv_nth)
    with rows(3) show "r \<in> set pool" by (metis nth_mem)
  qed
  with rows(1,2)
  show "\<exists>rs. uniform_choice uniform key pool scores n = Inr rs \<and> length rs = n \<and> set rs \<subseteq> set pool"
    by (simp add: uniform_choice_def)
qed

theorem optimizer_shapes_witness:
  "\<exists>bc bs sc ss.
     batch corner_sampler (uniform_choice (\<lambda>k n. replicate n (1 / 4))) identity_solver ()
       first_entry [(Fin (- 1), Fin 1)] 3 100 10 = Inr (bc, bs)
   \<and> shape bc = [3, 1] \<and> shape bs = []
   \<and> sequential (\<lambda>k n. replicate n k) corner_sampler (uniform_choice (\<lambda>k n. replicate n (1 / 4)))
        identity_solver () first_entry [(Fin (- 1), Fin 1)] 3 100 10 = Inr (sc, ss)
   \<and> shape sc = [3, 1] \<and> shape ss = [3]"
proof -
  have 1: "wf_sampler (corner_sampler :: unit sampler) [(Fin (- 1), Fin 1)]"
    by (simp add: wf_sampler_def corner_sampler_def has_shape_def list_all_iff)
  have "wf_uniform (\<lambda>(k::unit) n. replicate n (1 / 4 :: real)) key n" for key n
    by (simp add: wf_uniform_def list_all_iff)
  then have 2: "wf_initializer (uniform_choice (\<lambda>(k::unit) n. replicate n (1 / 4 :: real)))"
    by (rule wf_uniform_choice)
  have 3: "wf_solver identity_solver"
    by (auto simp: wf_solver_def identity_solver_def map_filter_id_Some list_all_iff)
  have 4: "wf_split (\<lambda>(k::unit) n. replicate n k)" by (simp add: wf_split_def)
  from optimizer_shapes [OF 1 2 3 4, of 3 100 10 "()" first_entry] show ?thesis by simp
qed

end
